theory Spec2Isabelle
  imports Main "HOL-Library.Word"
begin

unbundle bit_operations_syntax

section \<open>Duplicate-image detection engine (scripts/duplicate\_checker.py)\<close>

text \<open>
  The class \<^verbatim>\<open>DuplicateChecker\<close> is embedded as a record that is passed to and returned
  from every method. Exceptions are values of \<open>error\<close>; a method that can raise returns
  \<open>error + 'a\<close>. Console output (\<^verbatim>\<open>print\<close>) is not modelled. Python dictionaries keep
  insertion order, and the engine iterates over them, so they are association lists.
\<close>

subsection \<open>Errors\<close>

datatype error =
    IOError            \<comment> \<open>\<^verbatim>\<open>OSError\<close> and its subclasses (\<^verbatim>\<open>IOError\<close> is an alias)\<close>
  | KeyError
  | ValueError
  | IndexError
  | ShutilError        \<comment> \<open>\<^verbatim>\<open>shutil.Error\<close>\<close>

subsection \<open>Dictionaries in insertion order\<close>

definition dict_has :: "('k \<times> 'v) list \<Rightarrow> 'k \<Rightarrow> bool" where
  "dict_has d k = (map_of d k \<noteq> None)"

text \<open>\<^verbatim>\<open>d[k] = v\<close>: an existing key keeps its position, a new key goes to the end.\<close>

fun dict_set :: "('k \<times> 'v) list \<Rightarrow> 'k \<Rightarrow> 'v \<Rightarrow> ('k \<times> 'v) list" where
  "dict_set [] k v = [(k, v)]"
| "dict_set ((k', v') # d) k v =
     (if k' = k then (k, v) # d else (k', v') # dict_set d k v)"

text \<open>\<^verbatim>\<open>d[k].append(x)\<close> on a \<^verbatim>\<open>defaultdict(list)\<close>.\<close>

definition dd_get :: "('k \<times> 'v list) list \<Rightarrow> 'k \<Rightarrow> 'v list" where
  "dd_get d k = (case map_of d k of None \<Rightarrow> [] | Some xs \<Rightarrow> xs)"

definition dd_append :: "('k \<times> 'v list) list \<Rightarrow> 'k \<Rightarrow> 'v \<Rightarrow> ('k \<times> 'v list) list" where
  "dd_append d k x = dict_set d k (dd_get d k @ [x])"

text \<open>\<^verbatim>\<open>sum(len(v) for v in d.values())\<close>\<close>

definition sum_len :: "('k \<times> 'v list) list \<Rightarrow> nat" where
  "sum_len d = sum_list (map (\<lambda>kv. length (snd kv)) d)"


definition dict_keys :: "('k \<times> 'v) list \<Rightarrow> 'k list" where
  "dict_keys d = map fst d"

subsection \<open>Paths (pathlib, POSIX flavour)\<close>

text \<open>
  A path is the list of its \<^verbatim>\<open>parts\<close>; an absolute path starts with the part \<open>''/''\<close>,
  and the empty list is \<^verbatim>\<open>Path('.')\<close>. \<^verbatim>\<open>str(path)\<close> and \<^verbatim>\<open>Path(str)\<close> are inverse to
  each other on such paths and are not written out.
\<close>

type_synonym path = "string list"

definition is_absolute :: "path \<Rightarrow> bool" where
  "is_absolute p = (case p of [] \<Rightarrow> False | a # _ \<Rightarrow> a = ''/'')"


definition path_name :: "path \<Rightarrow> string" where
  "path_name p = (if p = [] \<or> p = [''/''] then [] else last p)"

definition joinpath :: "path \<Rightarrow> path \<Rightarrow> path" where
  "joinpath p q = (if is_absolute q then q else p @ q)"

definition is_under :: "path \<Rightarrow> path \<Rightarrow> bool" where
  "is_under q p = (take (length q) p = q)"


definition startswith :: "string \<Rightarrow> string \<Rightarrow> bool" where
  "startswith s pre = (take (length pre) s = pre)"

definition endswith :: "string \<Rightarrow> string \<Rightarrow> bool" where
  "endswith s suf = (length suf \<le> length s \<and> drop (length s - length suf) s = suf)"

subsection \<open>The file system\<close>

text \<open>
  The file system is the list of its entries in the order in which a directory traversal
  lists them. A file whose content is \<open>None\<close> exists but cannot be read. The root and the
  current directory always exist.
\<close>

type_synonym bytes = string

datatype node = Dir | File "bytes option"

type_synonym filesystem = "(path \<times> node) list"

definition fs_node :: "filesystem \<Rightarrow> path \<Rightarrow> node option" where
  "fs_node fs p = (if p = [] \<or> p = [''/''] then Some Dir else map_of fs p)"

definition path_exists :: "filesystem \<Rightarrow> path \<Rightarrow> bool" where
  "path_exists fs p = (fs_node fs p \<noteq> None)"


text \<open>\<^verbatim>\<open>open(path, "rb").read()\<close>: fails on a missing path, a directory, an unreadable file.\<close>

definition read_file :: "filesystem \<Rightarrow> path \<Rightarrow> bytes option" where
  "read_file fs p = (case fs_node fs p of Some (File (Some b)) \<Rightarrow> Some b | _ \<Rightarrow> None)"

text \<open>
  \<^verbatim>\<open>folder.rglob("*" + ext)\<close>: every entry strictly below \<open>folder\<close> whose name ends with
  \<open>ext\<close>, in traversal order. pathlib's \<^verbatim>\<open>*\<close> also matches names that start with a dot.
  The extension is taken literally (no glob metacharacters in it).
\<close>

definition rglob :: "filesystem \<Rightarrow> path \<Rightarrow> string \<Rightarrow> path list" where
  "rglob fs folder ext =
     filter (\<lambda>p. length folder < length p \<and> is_under folder p \<and> endswith (last p) ext)
       (map fst fs)"

text \<open>\<^verbatim>\<open>path.mkdir(parents=True, exist_ok=True)\<close>\<close>

fun mkdirs :: "filesystem \<Rightarrow> path list \<Rightarrow> error + filesystem" where
  "mkdirs fs [] = Inr fs"
| "mkdirs fs (q # qs) =
     (case fs_node fs q of
        Some Dir \<Rightarrow> mkdirs fs qs
      | Some (File _) \<Rightarrow> Inl IOError
      | None \<Rightarrow> mkdirs (fs @ [(q, Dir)]) qs)"

definition prefixes_of :: "path \<Rightarrow> path list" where
  "prefixes_of p = map (\<lambda>n. take n p) [1..<Suc (length p)]"

definition mkdir_parents :: "filesystem \<Rightarrow> path \<Rightarrow> error + filesystem" where
  "mkdir_parents fs p = mkdirs fs (prefixes_of p)"





subsection \<open>Hashing\<close>

text \<open>
  \<^verbatim>\<open>hashlib.sha256\<close>, \<^verbatim>\<open>PIL.Image.open\<close> and \<^verbatim>\<open>imagehash.phash\<close> are libraries: the digest
  function and the perceptual hash of a file's bytes are parameters. A perceptual hash is
  64 bits (\<^verbatim>\<open>str\<close> and \<^verbatim>\<open>hex_to_hash\<close> convert it to 16 hex digits and back);
  subtracting two hashes counts the bits in which they differ.
\<close>

type_synonym digest = string
type_synonym fingerprint = "64 word"

record hashlib =
  sha256_hexdigest :: "bytes \<Rightarrow> digest"
  imagehash_phash :: "bytes \<Rightarrow> fingerprint option"

definition hamming :: "fingerprint \<Rightarrow> fingerprint \<Rightarrow> nat" where
  "hamming a b = length (filter (bit (a XOR b)) [0..<64])"

text \<open>
  The block loop of \<^verbatim>\<open>calculate_sha256\<close>: the hash object is the bytes fed to it so far,
  \<open>rest\<close> is what the file still holds; \<^verbatim>\<open>f.read(4096)\<close> returns \<^verbatim>\<open>b""\<close> at the end.
\<close>

function read_blocks :: "bytes \<Rightarrow> bytes \<Rightarrow> bytes" where
  "read_blocks fed rest =
     (if take 4096 rest = [] then fed
      else read_blocks (fed @ take 4096 rest) (drop 4096 rest))"
  by pat_completeness auto
termination
  by (relation "measure (\<lambda>(fed, rest). length rest)") auto

declare read_blocks.simps [simp del]

definition calculate_sha256 :: "hashlib \<Rightarrow> filesystem \<Rightarrow> path \<Rightarrow> error + digest" where
  "calculate_sha256 lib fs file_path =
     (case read_file fs file_path of
        None \<Rightarrow> Inl IOError
      | Some content \<Rightarrow> Inr (sha256_hexdigest lib (read_blocks [] content)))"

text \<open>\<^verbatim>\<open>calculate_phash\<close> catches every exception and returns \<^verbatim>\<open>None\<close>.\<close>

definition calculate_phash :: "hashlib \<Rightarrow> filesystem \<Rightarrow> path \<Rightarrow> fingerprint option" where
  "calculate_phash lib fs file_path =
     (case read_file fs file_path of
        None \<Rightarrow> None
      | Some content \<Rightarrow> imagehash_phash lib content)"

subsection \<open>The engine's state and its constructor\<close>

record config =
  cfg_source_folders :: "path list option"
  cfg_backup_dir :: "path option"
  cfg_output_dir :: "path option"
  cfg_image_extensions :: "string list option"
  cfg_perceptual_hash_threshold :: "int option"

record checker =
  source_folders :: "path list"
  backup_dir :: path
  output_dir :: path
  extensions :: "string list"
  phash_threshold :: int
  exact_duplicates :: "(digest \<times> path list) list"
  similar_duplicates :: "(fingerprint \<times> path list) list"
  sha256_map :: "(digest \<times> path) list"
  phash_map :: "(fingerprint \<times> path) list"

text \<open>
  \<^verbatim>\<open>__init__\<close>, from the parsed configuration: \<^verbatim>\<open>config[key]\<close> raises \<^verbatim>\<open>KeyError\<close> on a
  missing key, \<^verbatim>\<open>config.get(key, 10)\<close> does not.
\<close>

definition init :: "config \<Rightarrow> filesystem \<Rightarrow> error + (checker \<times> filesystem)" where
  "init cfg fs =
     (case cfg_source_folders cfg of None \<Rightarrow> Inl KeyError | Some sf \<Rightarrow>
      case cfg_backup_dir cfg of None \<Rightarrow> Inl KeyError | Some bd \<Rightarrow>
      case cfg_output_dir cfg of None \<Rightarrow> Inl KeyError | Some od \<Rightarrow>
      case cfg_image_extensions cfg of None \<Rightarrow> Inl KeyError | Some exts \<Rightarrow>
      case mkdir_parents fs bd of Inl e \<Rightarrow> Inl e | Inr fs' \<Rightarrow>
        Inr (\<lparr> source_folders = sf, backup_dir = bd, output_dir = od, extensions = exts,
               phash_threshold =
                 (case cfg_perceptual_hash_threshold cfg of None \<Rightarrow> 10 | Some t \<Rightarrow> t),
               exact_duplicates = [], similar_duplicates = [],
               sha256_map = [], phash_map = [] \<rparr>, fs'))"

subsection \<open>Image discovery\<close>

fun glob_extensions :: "filesystem \<Rightarrow> path \<Rightarrow> string list \<Rightarrow> path list \<Rightarrow> path list" where
  "glob_extensions fs folder [] image_files = image_files"
| "glob_extensions fs folder (ext # exts) image_files =
     glob_extensions fs folder exts (image_files @ rglob fs folder ext)"

fun find_in_folders :: "filesystem \<Rightarrow> string list \<Rightarrow> path list \<Rightarrow> path list \<Rightarrow> path list" where
  "find_in_folders fs exts [] image_files = image_files"
| "find_in_folders fs exts (folder # folders) image_files =
     (if \<not> path_exists fs folder then find_in_folders fs exts folders image_files
      else find_in_folders fs exts folders (glob_extensions fs folder exts image_files))"

definition find_all_images :: "checker \<Rightarrow> filesystem \<Rightarrow> path list" where
  "find_all_images c fs = find_in_folders fs (extensions c) (source_folders c) []"

subsection \<open>The duplicate index\<close>

text \<open>
  The scan over \<^verbatim>\<open>self.phash_map.keys()\<close> with its \<^verbatim>\<open>break\<close>: the first key within the
  threshold, if any.
\<close>

fun find_similar :: "int \<Rightarrow> fingerprint \<Rightarrow> fingerprint list \<Rightarrow> fingerprint option" where
  "find_similar t ph [] = None"
| "find_similar t ph (existing_phash # ks) =
     (if int (hamming ph existing_phash) \<le> t then Some existing_phash
      else find_similar t ph ks)"

definition record_sha256 :: "checker \<Rightarrow> digest \<Rightarrow> path \<Rightarrow> checker" where
  "record_sha256 c sha file_path =
     (if dict_has (sha256_map c) sha
      then c\<lparr>exact_duplicates := dd_append (exact_duplicates c) sha file_path\<rparr>
      else c\<lparr>sha256_map := dict_set (sha256_map c) sha file_path\<rparr>)"

definition record_phash :: "checker \<Rightarrow> fingerprint option \<Rightarrow> path \<Rightarrow> checker" where
  "record_phash c phash file_path =
     (case phash of
        None \<Rightarrow> c
      | Some ph \<Rightarrow>
          (case find_similar (phash_threshold c) ph (dict_keys (phash_map c)) of
             Some existing_phash \<Rightarrow>
               c\<lparr>similar_duplicates :=
                    dd_append (similar_duplicates c) existing_phash file_path\<rparr>
           | None \<Rightarrow> c\<lparr>phash_map := dict_set (phash_map c) ph file_path\<rparr>))"

text \<open>The body of the loop of \<^verbatim>\<open>check_duplicates\<close>, for one file.\<close>

definition check_file :: "hashlib \<Rightarrow> filesystem \<Rightarrow> checker \<Rightarrow> path \<Rightarrow> error + checker" where
  "check_file lib fs c file_path =
     (case calculate_sha256 lib fs file_path of
        Inl e \<Rightarrow> Inl e
      | Inr sha \<Rightarrow>
          Inr (record_phash (record_sha256 c sha file_path)
                 (calculate_phash lib fs file_path) file_path))"

fun check_duplicates :: "hashlib \<Rightarrow> filesystem \<Rightarrow> checker \<Rightarrow> path list \<Rightarrow> error + checker" where
  "check_duplicates lib fs c [] = Inr c"
| "check_duplicates lib fs c (file_path # image_files) =
     (case check_file lib fs c file_path of
        Inl e \<Rightarrow> Inl e
      | Inr c' \<Rightarrow> check_duplicates lib fs c' image_files)"

text \<open>Lines 164 to 169 of \<^verbatim>\<open>run\<close>: the discovered list goes to the index as it is.\<close>

definition run_check :: "hashlib \<Rightarrow> filesystem \<Rightarrow> checker \<Rightarrow> error + checker" where
  "run_check lib fs c = check_duplicates lib fs c (find_all_images c fs)"

subsection \<open>The backup mover\<close>





subsection \<open>The report\<close>

record exact_group =
  original :: path
  duplicates :: "path list"

record similar_group =
  similar_original :: path
  similar_images :: "path list"

record report =
  timestamp :: string
  total_images_scanned :: nat
  exact_duplicates_count :: nat
  similar_duplicates_count :: nat
  report_exact_duplicates :: "(digest \<times> exact_group) list"
  report_similar_duplicates :: "(fingerprint \<times> similar_group) list"

text \<open>\<^verbatim>\<open>d.get(k, "Unknown")\<close>\<close>

definition get_or_unknown :: "('k \<times> path) list \<Rightarrow> 'k \<Rightarrow> path" where
  "get_or_unknown d k = (case map_of d k of None \<Rightarrow> [''Unknown''] | Some p \<Rightarrow> p)"

text \<open>
  The dictionary that \<^verbatim>\<open>generate_report\<close> builds, and the path it is written to; \<open>now\<close> is
  \<^verbatim>\<open>datetime.now().isoformat()\<close>. The serialisation to the file is not modelled.
\<close>

definition generate_report :: "checker \<Rightarrow> string \<Rightarrow> report \<times> path" where
  "generate_report c now =
     (\<lparr> timestamp = now,
        total_images_scanned = length (sha256_map c) + sum_len (exact_duplicates c),
        exact_duplicates_count = sum_len (exact_duplicates c),
        similar_duplicates_count = sum_len (similar_duplicates c),
        report_exact_duplicates =
          map (\<lambda>(sha, files).
                 (sha, \<lparr> original = get_or_unknown (sha256_map c) sha, duplicates = files \<rparr>))
            (exact_duplicates c),
        report_similar_duplicates =
          map (\<lambda>(ph, files).
                 (ph, \<lparr> similar_original = get_or_unknown (phash_map c) ph,
                        similar_images = files \<rparr>))
            (similar_duplicates c) \<rparr>,
      joinpath (output_dir c) [''duplicate_report.json''])"

subsection \<open>Paths listed in the groups\<close>



subsection \<open>Example inputs\<close>

text \<open>
  Stand-ins for the libraries on the examples: the digest of a file is its content, and
  three contents decode as images, \<open>cat1\<close> and \<open>cat2\<close> two bits apart, \<open>dog\<close> far from
  both. The traversal lists \<open>b.jpg\<close> before \<open>a.jpg\<close>.
\<close>

definition ex_lib :: hashlib where
  "ex_lib = \<lparr> sha256_hexdigest = (\<lambda>b. b),
     imagehash_phash = map_of [(''cat1'', 0), (''cat2'', 3), (''dog'', 65535)] \<rparr>"

definition ex_cfg :: config where
  "ex_cfg = \<lparr> cfg_source_folders = Some [[''/'', ''data'', ''img'']],
     cfg_backup_dir = Some [''/'', ''data'', ''backup''],
     cfg_output_dir = Some [''/'', ''data'', ''out''],
     cfg_image_extensions = Some [''.jpg''],
     cfg_perceptual_hash_threshold = None \<rparr>"

definition ex_fs :: filesystem where
  "ex_fs = [([''/'', ''data''], Dir), ([''/'', ''data'', ''img''], Dir),
            ([''/'', ''data'', ''img'', ''b.jpg''], File (Some ''cat1'')),
            ([''/'', ''data'', ''img'', ''a.jpg''], File (Some ''cat1'')),
            ([''/'', ''data'', ''img'', ''c.jpg''], File (Some ''cat2'')),
            ([''/'', ''data'', ''img'', ''d.jpg''], File (Some ''dog''))]"


definition ex_a :: path where "ex_a = [''/'', ''data'', ''img'', ''a.jpg'']"
definition ex_b :: path where "ex_b = [''/'', ''data'', ''img'', ''b.jpg'']"
definition ex_c :: path where "ex_c = [''/'', ''data'', ''img'', ''c.jpg'']"
definition ex_d :: path where "ex_d = [''/'', ''data'', ''img'', ''d.jpg'']"

definition ex_checker :: checker where
  "ex_checker = \<lparr> source_folders = [[''/'', ''data'', ''img'']],
     backup_dir = [''/'', ''data'', ''backup''], output_dir = [''/'', ''data'', ''out''],
     extensions = [''.jpg''], phash_threshold = 10,
     exact_duplicates = [], similar_duplicates = [], sha256_map = [], phash_map = [] \<rparr>"


text \<open>The engine after \<open>b.jpg\<close>, and after \<open>b.jpg\<close> followed by more files.\<close>

definition ex_seen_b :: checker where
  "ex_seen_b = ex_checker\<lparr> sha256_map := [(''cat1'', ex_b)], phash_map := [(0, ex_b)] \<rparr>"

definition ex_seen_ba :: checker where
  "ex_seen_ba = ex_seen_b\<lparr> exact_duplicates := [(''cat1'', [ex_a])],
                            similar_duplicates := [(0, [ex_a])] \<rparr>"

definition ex_seen_bc :: checker where
  "ex_seen_bc = ex_seen_b\<lparr> sha256_map := [(''cat1'', ex_b), (''cat2'', ex_c)],
                            similar_duplicates := [(0, [ex_c])] \<rparr>"

definition ex_seen_bcd :: checker where
  "ex_seen_bcd = ex_seen_bc\<lparr>
     sha256_map := [(''cat1'', ex_b), (''cat2'', ex_c), (''dog'', ex_d)],
     phash_map := [(0, ex_b), (65535, ex_d)] \<rparr>"


text \<open>A configuration with a negative threshold, and the engine it gives.\<close>

definition ex_cfg_strict :: config where
  "ex_cfg_strict = ex_cfg\<lparr> cfg_perceptual_hash_threshold := Some (- 1) \<rparr>"

definition ex_strict :: checker where
  "ex_strict = ex_checker\<lparr> phash_threshold := - 1 \<rparr>"

definition ex_strict_b :: checker where
  "ex_strict_b = ex_strict\<lparr> sha256_map := [(''cat1'', ex_b)], phash_map := [(0, ex_b)] \<rparr>"

definition ex_strict_ba :: checker where
  "ex_strict_ba = ex_strict\<lparr> sha256_map := [(''cat1'', ex_b)],
     exact_duplicates := [(''cat1'', [ex_a])], phash_map := [(0, ex_a)] \<rparr>"

text \<open>
  Three more file systems: one with an unreadable file between two readable ones, one
  with a macOS resource-fork file, and the first example with \<open>a.jpg\<close> listed before
  \<open>b.jpg\<close>; and what the scan of the first example and of the last one leaves.
\<close>

definition ex_locked :: path where "ex_locked = [''/'', ''data'', ''img'', ''locked.jpg'']"

definition ex_fs_locked :: filesystem where
  "ex_fs_locked = [([''/'', ''data''], Dir), ([''/'', ''data'', ''img''], Dir),
            (ex_b, File (Some ''cat1'')), (ex_locked, File None), (ex_c, File (Some ''cat2''))]"

definition ex_dot :: path where "ex_dot = [''/'', ''data'', ''img'', ''._a.jpg'']"

definition ex_fs_mac :: filesystem where
  "ex_fs_mac = [([''/'', ''data''], Dir), ([''/'', ''data'', ''img''], Dir),
            (ex_a, File (Some ''cat1'')), (ex_dot, File (Some ''resource fork''))]"

definition ex_fs_sorted :: filesystem where
  "ex_fs_sorted = [([''/'', ''data''], Dir), ([''/'', ''data'', ''img''], Dir),
            (ex_a, File (Some ''cat1'')), (ex_b, File (Some ''cat1'')),
            (ex_c, File (Some ''cat2'')), (ex_d, File (Some ''dog''))]"

definition ex_run :: checker where
  "ex_run = ex_checker\<lparr>
     exact_duplicates := [(''cat1'', [ex_a])],
     similar_duplicates := [(0, [ex_a, ex_c])],
     sha256_map := [(''cat1'', ex_b), (''cat2'', ex_c), (''dog'', ex_d)],
     phash_map := [(0, ex_b), (65535, ex_d)] \<rparr>"

definition ex_run_sorted :: checker where
  "ex_run_sorted = ex_checker\<lparr>
     exact_duplicates := [(''cat1'', [ex_b])],
     similar_duplicates := [(0, [ex_b, ex_c])],
     sha256_map := [(''cat1'', ex_a), (''cat2'', ex_c), (''dog'', ex_d)],
     phash_map := [(0, ex_a), (65535, ex_d)] \<rparr>"







section \<open>Properties\<close>

subsection \<open>Dictionaries and the scan\<close>

lemma map_of_dict_set: "map_of (dict_set d k v) = (map_of d)(k \<mapsto> v)"
  by (induction d) (auto simp: fun_eq_iff)

lemma keys_dict_set:
  "dict_keys (dict_set d k v) = (if k \<in> set (dict_keys d) then dict_keys d else dict_keys d @ [k])"
proof (induction d)
  case Nil
  then show ?case by (simp add: dict_keys_def)
next
  case (Cons kv d)
  obtain k' v' where kv: "kv = (k', v')" by (cases kv)
  show ?case
  proof (cases "k' = k")
    case True
    with kv show ?thesis by (simp add: dict_keys_def)
  next
    case False
    with kv Cons.IH show ?thesis by (simp add: dict_keys_def)
  qed
qed

lemma length_dict_set:
  "length (dict_set d k v) = (if dict_has d k then length d else Suc (length d))"
  by (induction d) (auto simp: dict_has_def)

lemma sum_len_dict_set:
  "sum_len (dict_set d k (dd_get d k @ [x])) = Suc (sum_len d)"
  by (induction d) (auto simp: sum_len_def dd_get_def)

lemma sum_len_dd_append: "sum_len (dd_append d k x) = Suc (sum_len d)"
  by (simp add: dd_append_def sum_len_dict_set)

lemma find_similar_None_iff:
  "find_similar t ph ks = None \<longleftrightarrow> (\<forall>k \<in> set ks. t < int (hamming ph k))"
  by (induction ks) auto

lemma find_similar_Some_iff:
  "find_similar t ph ks = Some k \<longleftrightarrow>
     (\<exists>pre post. ks = pre @ k # post \<and> (\<forall>j \<in> set pre. t < int (hamming ph j)) \<and>
        int (hamming ph k) \<le> t)"
proof (induction ks)
  case Nil
  then show ?case by simp
next
  case (Cons a ks)
  show ?case
  proof (cases "int (hamming ph a) \<le> t")
    case True
    have "(\<exists>pre post. a # ks = pre @ k # post \<and> (\<forall>j \<in> set pre. t < int (hamming ph j)) \<and>
        int (hamming ph k) \<le> t) \<longleftrightarrow> a = k"
    proof
      assume "\<exists>pre post. a # ks = pre @ k # post \<and> (\<forall>j \<in> set pre. t < int (hamming ph j)) \<and>
        int (hamming ph k) \<le> t"
      then obtain pre post where e: "a # ks = pre @ k # post"
        and p: "\<forall>j \<in> set pre. t < int (hamming ph j)" by blast
      show "a = k"
      proof (cases pre)
        case Nil
        with e show ?thesis by simp
      next
        case (Cons b pre')
        with e have "b = a" by simp
        with Cons p True show ?thesis by auto
      qed
    next
      assume "a = k"
      with True have "a # ks = [] @ k # ks \<and> (\<forall>j \<in> set []. t < int (hamming ph j)) \<and>
        int (hamming ph k) \<le> t" by simp
      then show "\<exists>pre post. a # ks = pre @ k # post \<and> (\<forall>j \<in> set pre. t < int (hamming ph j)) \<and>
        int (hamming ph k) \<le> t" by blast
    qed
    with True show ?thesis by auto
  next
    case False
    have "(\<exists>pre post. a # ks = pre @ k # post \<and> (\<forall>j \<in> set pre. t < int (hamming ph j)) \<and>
        int (hamming ph k) \<le> t) \<longleftrightarrow> (\<exists>pre post. ks = pre @ k # post \<and> (\<forall>j \<in> set pre. t < int (hamming ph j)) \<and>
        int (hamming ph k) \<le> t)" (is "?L \<longleftrightarrow> ?R")
    proof
      assume ?L
      then obtain pre post where e: "a # ks = pre @ k # post"
        and p: "\<forall>j \<in> set pre. t < int (hamming ph j)" and q: "int (hamming ph k) \<le> t" by blast
      show ?R
      proof (cases pre)
        case Nil
        with e q False show ?thesis by simp
      next
        case (Cons b pre')
        with e p q have "ks = pre' @ k # post \<and> (\<forall>j \<in> set pre'. t < int (hamming ph j)) \<and> int (hamming ph k) \<le> t"
          by simp
        then show ?thesis by blast
      qed
    next
      assume ?R
      then obtain pre post where e: "ks = pre @ k # post"
        and p: "\<forall>j \<in> set pre. t < int (hamming ph j)" and q: "int (hamming ph k) \<le> t" by blast
      with False have "a # ks = (a # pre) @ k # post \<and> (\<forall>j \<in> set (a # pre). t < int (hamming ph j)) \<and> int (hamming ph k) \<le> t"
        by simp
      then show ?L by blast
    qed
    with False Cons.IH show ?thesis by simp
  qed
qed

lemma phash_threshold_record_sha256 [simp]:
  "phash_threshold (record_sha256 c sha p) = phash_threshold c"
  by (simp add: record_sha256_def)

lemma phash_threshold_record_phash [simp]:
  "phash_threshold (record_phash c ph p) = phash_threshold c"
  by (simp add: record_phash_def split: option.splits)

lemma phash_threshold_check_file:
  "check_file lib fs c p = Inr c' \<Longrightarrow> phash_threshold c' = phash_threshold c"
  by (auto simp: check_file_def split: sum.splits)

lemma phash_threshold_check_duplicates:
  "check_duplicates lib fs c ps = Inr c' \<Longrightarrow> phash_threshold c' = phash_threshold c"
  by (induction ps arbitrary: c) (auto split: sum.splits dest: phash_threshold_check_file)

lemma check_duplicates_append:
  "check_duplicates lib fs c (xs @ ys) =
     (case check_duplicates lib fs c xs of
        Inl e \<Rightarrow> Inl e
      | Inr c' \<Rightarrow> check_duplicates lib fs c' ys)"
  by (induction xs arbitrary: c) (simp_all split: sum.splits)

lemma check_duplicates_single:
  "check_duplicates lib fs c [p] = check_file lib fs c p"
  by (simp split: sum.splits)

lemma check_duplicates_split:
  assumes "check_duplicates lib fs c0 (seen @ p # rest) = Inr c_end"
  shows "\<exists>c c'. check_duplicates lib fs c0 seen = Inr c \<and>
           check_file lib fs c p = Inr c' \<and>
           check_duplicates lib fs c0 (seen @ [p]) = Inr c' \<and>
           check_duplicates lib fs c' rest = Inr c_end"
proof -
  from assms obtain c where c: "check_duplicates lib fs c0 seen = Inr c"
    and r: "check_duplicates lib fs c (p # rest) = Inr c_end"
    by (auto simp: check_duplicates_append split: sum.splits)
  from r obtain c' where s: "check_file lib fs c p = Inr c'"
    and e: "check_duplicates lib fs c' rest = Inr c_end"
    by (auto split: sum.splits)
  have "check_duplicates lib fs c0 (seen @ [p]) = Inr c'"
    using c s by (simp add: check_duplicates_append)
  with c s e show ?thesis by blast
qed

lemma read_blocks_eq: "read_blocks fed rest = fed @ rest"
proof (induction fed rest rule: read_blocks.induct)
  case (1 fed rest)
  show ?case
  proof (cases "take 4096 rest = []")
    case True
    then have "rest = []" by (cases rest) auto
    then show ?thesis by (subst read_blocks.simps) simp
  next
    case False
    have "read_blocks fed rest = read_blocks (fed @ take 4096 rest) (drop 4096 rest)"
      using False by (subst read_blocks.simps) simp
    also have "\<dots> = (fed @ take 4096 rest) @ drop 4096 rest"
      using False by (rule "1.IH")
    finally show ?thesis by simp
  qed
qed

lemma calculate_sha256_eq:
  "calculate_sha256 lib fs p =
     (case read_file fs p of None \<Rightarrow> Inl IOError | Some b \<Rightarrow> Inr (sha256_hexdigest lib b))"
  by (cases "read_file fs p") (simp_all add: calculate_sha256_def read_blocks_eq)

lemma hamming_self: "hamming a a = 0"
  by (simp add: hamming_def)

lemma dd_get_dd_append: "dd_get (dd_append d k x) k = dd_get d k @ [x]"
  by (simp add: dd_get_def dd_append_def map_of_dict_set)

lemma phash_map_record_sha256: "phash_map (record_sha256 c sha p) = phash_map c"
  by (simp add: record_sha256_def)

lemma similar_record_sha256: "similar_duplicates (record_sha256 c sha p) = similar_duplicates c"
  by (simp add: record_sha256_def)

lemma record_phash_match:
  assumes "dict_keys (phash_map c) = pre @ k # post"
    and "\<forall>j \<in> set pre. phash_threshold c < int (hamming ph j)"
    and "int (hamming ph k) \<le> phash_threshold c"
  shows "record_phash c (Some ph) p =
           c\<lparr>similar_duplicates := dd_append (similar_duplicates c) k p\<rparr>"
proof -
  have "find_similar (phash_threshold c) ph (dict_keys (phash_map c)) = Some k"
    using assms by (subst find_similar_Some_iff) blast
  then show ?thesis by (simp add: record_phash_def)
qed

lemma record_phash_no_match:
  assumes "\<forall>k \<in> set (dict_keys (phash_map c)). phash_threshold c < int (hamming ph k)"
  shows "record_phash c (Some ph) p = c\<lparr>phash_map := dict_set (phash_map c) ph p\<rparr>"
proof -
  have "find_similar (phash_threshold c) ph (dict_keys (phash_map c)) = None"
    using assms by (simp add: find_similar_None_iff)
  then show ?thesis by (simp add: record_phash_def)
qed

lemma get_or_unknown_dict_set: "get_or_unknown (dict_set d k v) k = v"
  by (simp add: get_or_unknown_def map_of_dict_set)

lemma check_file_phash_step:
  assumes "check_file lib fs c file_path = Inr c'"
    and "calculate_phash lib fs file_path = Some ph"
  shows "(\<forall>pre k post.
            dict_keys (phash_map c) = pre @ k # post \<and>
            (\<forall>j \<in> set pre. phash_threshold c < int (hamming ph j)) \<and>
            int (hamming ph k) \<le> phash_threshold c \<longrightarrow>
              similar_duplicates c' = dd_append (similar_duplicates c) k file_path \<and>
              dd_get (similar_duplicates c') k = dd_get (similar_duplicates c) k @ [file_path] \<and>
              phash_map c' = phash_map c)
       \<and> ((\<forall>k \<in> set (dict_keys (phash_map c)). phash_threshold c < int (hamming ph k)) \<longrightarrow>
              phash_map c' = dict_set (phash_map c) ph file_path \<and>
              get_or_unknown (phash_map c') ph = file_path \<and>
              similar_duplicates c' = similar_duplicates c \<and>
              (0 \<le> phash_threshold c \<longrightarrow>
                 dict_keys (phash_map c') = dict_keys (phash_map c) @ [ph]))"
proof -
  from assms(1) obtain sha where sha: "calculate_sha256 lib fs file_path = Inr sha"
    and c': "c' = record_phash (record_sha256 c sha file_path) (Some ph) file_path"
    using assms(2) by (auto simp: check_file_def split: sum.splits)
  let ?c1 = "record_sha256 c sha file_path"
  have keys: "dict_keys (phash_map ?c1) = dict_keys (phash_map c)"
    and thr: "phash_threshold ?c1 = phash_threshold c"
    and sim: "similar_duplicates ?c1 = similar_duplicates c"
    and pm: "phash_map ?c1 = phash_map c"
    by (simp_all add: phash_map_record_sha256 similar_record_sha256)
  have A: "similar_duplicates c' = dd_append (similar_duplicates c) k file_path \<and>
           dd_get (similar_duplicates c') k = dd_get (similar_duplicates c) k @ [file_path] \<and>
           phash_map c' = phash_map c"
    if "dict_keys (phash_map c) = pre @ k # post"
      and "\<forall>j \<in> set pre. phash_threshold c < int (hamming ph j)"
      and "int (hamming ph k) \<le> phash_threshold c" for pre k post
  proof -
    have "c' = ?c1\<lparr>similar_duplicates := dd_append (similar_duplicates ?c1) k file_path\<rparr>"
      unfolding c' using that by (intro record_phash_match [where pre = pre and post = post]) (simp_all add: keys thr)
    then show ?thesis by (simp add: sim pm dd_get_dd_append)
  qed
  have B: "phash_map c' = dict_set (phash_map c) ph file_path \<and>
           get_or_unknown (phash_map c') ph = file_path \<and>
           similar_duplicates c' = similar_duplicates c \<and>
           (0 \<le> phash_threshold c \<longrightarrow>
              dict_keys (phash_map c') = dict_keys (phash_map c) @ [ph])"
    if none: "\<forall>k \<in> set (dict_keys (phash_map c)). phash_threshold c < int (hamming ph k)"
  proof -
    have "c' = ?c1\<lparr>phash_map := dict_set (phash_map ?c1) ph file_path\<rparr>"
      unfolding c' using none by (intro record_phash_no_match) (simp add: keys thr)
    then have e: "phash_map c' = dict_set (phash_map c) ph file_path"
      and s: "similar_duplicates c' = similar_duplicates c"
      by (simp_all add: sim pm)
    have "ph \<notin> set (dict_keys (phash_map c))" if "0 \<le> phash_threshold c"
    proof
      assume "ph \<in> set (dict_keys (phash_map c))"
      with none have "phash_threshold c < int (hamming ph ph)" by blast
      with that show False by (simp add: hamming_self)
    qed
    then show ?thesis using e s by (simp add: get_or_unknown_dict_set keys_dict_set)
  qed
  from A B show ?thesis by blast
qed


lemma check_file_phash_keys:
  assumes "check_file lib fs c file_path = Inr c'"
    and "calculate_phash lib fs file_path = Some ph"
    and none: "\<forall>k \<in> set (dict_keys (phash_map c)). phash_threshold c < int (hamming ph k)"
  shows "(ph \<notin> set (dict_keys (phash_map c)) \<longrightarrow>
            dict_keys (phash_map c') = dict_keys (phash_map c) @ [ph]) \<and>
         (ph \<in> set (dict_keys (phash_map c)) \<longrightarrow>
            dict_keys (phash_map c') = dict_keys (phash_map c)) \<and>
         (0 \<le> phash_threshold c \<longrightarrow> ph \<notin> set (dict_keys (phash_map c)))"
proof -
  from check_file_phash_step [OF assms(1,2)] none
  have e: "phash_map c' = dict_set (phash_map c) ph file_path" by blast
  have "ph \<notin> set (dict_keys (phash_map c))" if "0 \<le> phash_threshold c"
  proof
    assume "ph \<in> set (dict_keys (phash_map c))"
    with none have "phash_threshold c < int (hamming ph ph)" by blast
    with that show False by (simp add: hamming_self)
  qed
  then show ?thesis by (simp add: e keys_dict_set)
qed

subsection \<open>What a scan has covered\<close>

lemma dict_has_keys: "dict_has d k \<longleftrightarrow> k \<in> set (dict_keys d)"
  by (simp add: dict_has_def dict_keys_def map_of_eq_None_iff)

lemma find_similar_exists:
  "(\<exists>k \<in> set ks. int (hamming ph k) \<le> t) \<longleftrightarrow>
     (\<exists>pre k post. ks = pre @ k # post \<and> (\<forall>j \<in> set pre. t < int (hamming ph j)) \<and>
        int (hamming ph k) \<le> t)"
proof -
  have "(\<exists>k \<in> set ks. int (hamming ph k) \<le> t) \<longleftrightarrow> find_similar t ph ks \<noteq> None"
    by (auto simp: find_similar_None_iff not_less)
  also have "\<dots> \<longleftrightarrow> (\<exists>k. find_similar t ph ks = Some k)" by auto
  also have "\<dots> \<longleftrightarrow> (\<exists>pre k post. ks = pre @ k # post \<and>
      (\<forall>j \<in> set pre. t < int (hamming ph j)) \<and> int (hamming ph k) \<le> t)"
    by (simp add: find_similar_Some_iff) blast
  finally show ?thesis .
qed

lemma record_sha256_duplicate:
  "dict_has (sha256_map c) sha \<Longrightarrow>
     record_sha256 c sha p = c\<lparr>exact_duplicates := dd_append (exact_duplicates c) sha p\<rparr>"
  by (simp add: record_sha256_def)

lemma record_sha256_new:
  "\<not> dict_has (sha256_map c) sha \<Longrightarrow>
     record_sha256 c sha p = c\<lparr>sha256_map := dict_set (sha256_map c) sha p\<rparr>"
  by (simp add: record_sha256_def)

lemma sha_keys_record_sha256:
  "set (dict_keys (sha256_map (record_sha256 c sha p))) = insert sha (set (dict_keys (sha256_map c)))"
  by (auto simp: record_sha256_def keys_dict_set dict_has_keys)

lemma sha_map_record_phash [simp]: "sha256_map (record_phash c ph p) = sha256_map c"
  by (simp add: record_phash_def split: option.splits)

lemma exact_record_phash [simp]: "exact_duplicates (record_phash c ph p) = exact_duplicates c"
  by (simp add: record_phash_def split: option.splits)

lemma phash_keys_record_phash:
  "set (dict_keys (phash_map c)) \<subseteq> set (dict_keys (phash_map (record_phash c ph p)))"
  by (auto simp: record_phash_def keys_dict_set split: option.splits)

lemma record_phash_covers:
  assumes "0 \<le> phash_threshold c"
  shows "\<exists>k \<in> set (dict_keys (phash_map (record_phash c (Some ph) p))).
           int (hamming ph k) \<le> phash_threshold c"
proof (cases "find_similar (phash_threshold c) ph (dict_keys (phash_map c))")
  case None
  then have "record_phash c (Some ph) p = c\<lparr>phash_map := dict_set (phash_map c) ph p\<rparr>"
    by (simp add: record_phash_def)
  then have "ph \<in> set (dict_keys (phash_map (record_phash c (Some ph) p)))"
    by (simp add: keys_dict_set)
  moreover have "int (hamming ph ph) \<le> phash_threshold c"
    using assms by (simp add: hamming_self)
  ultimately show ?thesis by blast
next
  case (Some k)
  then have "k \<in> set (dict_keys (phash_map c)) \<and> int (hamming ph k) \<le> phash_threshold c"
    by (auto simp: find_similar_Some_iff)
  with phash_keys_record_phash [of c "Some ph" p] show ?thesis by blast
qed

lemma check_file_unfold:
  "check_file lib fs c p = Inr c' \<longleftrightarrow>
     (\<exists>b. read_file fs p = Some b \<and>
        c' = record_phash (record_sha256 c (sha256_hexdigest lib b) p) (imagehash_phash lib b) p)"
  by (cases "read_file fs p")
     (auto simp: check_file_def calculate_sha256_eq calculate_phash_def)

lemma check_file_covers:
  assumes step: "check_file lib fs c p = Inr c'"
    and nonneg: "0 \<le> phash_threshold c"
    and inv: "\<forall>sha \<in> set (dict_keys (sha256_map c)). \<exists>b.
        (\<exists>q \<in> P. read_file fs q = Some b) \<and> sha256_hexdigest lib b = sha \<and>
        (\<forall>ph. imagehash_phash lib b = Some ph \<longrightarrow>
           (\<exists>k \<in> set (dict_keys (phash_map c)). int (hamming ph k) \<le> phash_threshold c))"
  shows "\<forall>sha \<in> set (dict_keys (sha256_map c')). \<exists>b.
        (\<exists>q \<in> insert p P. read_file fs q = Some b) \<and> sha256_hexdigest lib b = sha \<and>
        (\<forall>ph. imagehash_phash lib b = Some ph \<longrightarrow>
           (\<exists>k \<in> set (dict_keys (phash_map c')). int (hamming ph k) \<le> phash_threshold c'))"
proof
  fix sha assume sha: "sha \<in> set (dict_keys (sha256_map c'))"
  from step obtain b where b: "read_file fs p = Some b"
    and c': "c' = record_phash (record_sha256 c (sha256_hexdigest lib b) p) (imagehash_phash lib b) p"
    by (auto simp: check_file_unfold)
  let ?c1 = "record_sha256 c (sha256_hexdigest lib b) p"
  have thr: "phash_threshold c' = phash_threshold c" by (simp add: c')
  have mono: "set (dict_keys (phash_map c)) \<subseteq> set (dict_keys (phash_map c'))"
    using phash_keys_record_phash [of ?c1 "imagehash_phash lib b" p]
    by (simp add: c' phash_map_record_sha256)
  from sha have "sha = sha256_hexdigest lib b \<or> sha \<in> set (dict_keys (sha256_map c))"
    by (simp add: c' sha_keys_record_sha256)
  then show "\<exists>b. (\<exists>q \<in> insert p P. read_file fs q = Some b) \<and> sha256_hexdigest lib b = sha \<and>
        (\<forall>ph. imagehash_phash lib b = Some ph \<longrightarrow>
           (\<exists>k \<in> set (dict_keys (phash_map c')). int (hamming ph k) \<le> phash_threshold c'))"
  proof
    assume new: "sha = sha256_hexdigest lib b"
    have "\<exists>k \<in> set (dict_keys (phash_map c')). int (hamming ph k) \<le> phash_threshold c'"
      if "imagehash_phash lib b = Some ph" for ph
      using record_phash_covers [of ?c1 ph p] nonneg that by (simp add: c')
    with new b show ?thesis by blast
  next
    assume "sha \<in> set (dict_keys (sha256_map c))"
    with inv obtain b0 q where q: "q \<in> P" "read_file fs q = Some b0"
      and b0: "sha256_hexdigest lib b0 = sha"
      and cov: "\<forall>ph. imagehash_phash lib b0 = Some ph \<longrightarrow>
           (\<exists>k \<in> set (dict_keys (phash_map c)). int (hamming ph k) \<le> phash_threshold c)"
      by blast
    have "\<exists>k \<in> set (dict_keys (phash_map c')). int (hamming ph k) \<le> phash_threshold c'"
      if "imagehash_phash lib b0 = Some ph" for ph
    proof -
      from cov that obtain k where "k \<in> set (dict_keys (phash_map c))"
        and "int (hamming ph k) \<le> phash_threshold c" by blast
      with mono thr show ?thesis by auto
    qed
    with b0 q show ?thesis by blast
  qed
qed

lemma check_duplicates_covers:
  assumes "check_duplicates lib fs c0 files = Inr c"
    and "0 \<le> phash_threshold c0"
    and "\<forall>sha \<in> set (dict_keys (sha256_map c0)). \<exists>b.
        (\<exists>q \<in> P. read_file fs q = Some b) \<and> sha256_hexdigest lib b = sha \<and>
        (\<forall>ph. imagehash_phash lib b = Some ph \<longrightarrow>
           (\<exists>k \<in> set (dict_keys (phash_map c0)). int (hamming ph k) \<le> phash_threshold c0))"
  shows "\<forall>sha \<in> set (dict_keys (sha256_map c)). \<exists>b.
        (\<exists>q \<in> P \<union> set files. read_file fs q = Some b) \<and> sha256_hexdigest lib b = sha \<and>
        (\<forall>ph. imagehash_phash lib b = Some ph \<longrightarrow>
           (\<exists>k \<in> set (dict_keys (phash_map c)). int (hamming ph k) \<le> phash_threshold c))"
  using assms
proof (induction files arbitrary: c0 P)
  case Nil
  then show ?case by simp
next
  case (Cons p files)
  from Cons.prems(1) obtain c1 where s1: "check_file lib fs c0 p = Inr c1"
    and rest: "check_duplicates lib fs c1 files = Inr c"
    by (auto split: sum.splits)
  have thr: "phash_threshold c1 = phash_threshold c0"
    using s1 by (rule phash_threshold_check_file)
  have inv1: "\<forall>sha \<in> set (dict_keys (sha256_map c1)). \<exists>b.
        (\<exists>q \<in> insert p P. read_file fs q = Some b) \<and> sha256_hexdigest lib b = sha \<and>
        (\<forall>ph. imagehash_phash lib b = Some ph \<longrightarrow>
           (\<exists>k \<in> set (dict_keys (phash_map c1)). int (hamming ph k) \<le> phash_threshold c1))"
    using s1 Cons.prems(2,3) by (rule check_file_covers)
  have nn: "0 \<le> phash_threshold c1" using thr Cons.prems(2) by simp
  have "\<forall>sha \<in> set (dict_keys (sha256_map c)). \<exists>b.
        (\<exists>q \<in> insert p P \<union> set files. read_file fs q = Some b) \<and> sha256_hexdigest lib b = sha \<and>
        (\<forall>ph. imagehash_phash lib b = Some ph \<longrightarrow>
           (\<exists>k \<in> set (dict_keys (phash_map c)). int (hamming ph k) \<le> phash_threshold c))"
    by (rule Cons.IH [OF rest nn inv1])
  then show ?case by simp
qed

subsection \<open>The example run\<close>

lemma ex_step_b: "check_duplicates ex_lib ex_fs ex_checker [ex_b] = Inr ex_seen_b"
  by code_simp

lemma ex_step_c: "check_file ex_lib ex_fs ex_seen_b ex_c = Inr ex_seen_bc"
  by code_simp

lemma ex_step_a: "check_file ex_lib ex_fs ex_seen_b ex_a = Inr ex_seen_ba"
  by code_simp

lemma ex_phash_c: "calculate_phash ex_lib ex_fs ex_c = Some 3"
  by code_simp

lemma ex_phash_d: "calculate_phash ex_lib ex_fs ex_d = Some 65535"
  by code_simp

lemma ex_ham: "hamming 3 0 = 2" "hamming 65535 0 = 16" by code_simp+

lemma ex_sha_a: "calculate_sha256 ex_lib ex_fs ex_a = Inr ''cat1''"
  by code_simp

lemma ex_phash_a: "calculate_phash ex_lib ex_fs ex_a = Some 0"
  by code_simp

lemma ex_inj_on:
  "inj_on (sha256_hexdigest ex_lib)
     {b. \<exists>p \<in> insert ex_a (set [ex_b]). read_file ex_fs p = Some b}"
  by (simp add: ex_lib_def inj_on_def)

lemma ex_init:
  "init ex_cfg ex_fs = Inr (ex_checker, ex_fs @ [([''/'', ''data'', ''backup''], Dir)])"
  by code_simp

lemma ex_scan_bc: "check_duplicates ex_lib ex_fs ex_checker [ex_b, ex_c] = Inr ex_seen_bc"
  by code_simp

lemma ex_scan_bcd: "check_duplicates ex_lib ex_fs ex_checker [ex_b, ex_c, ex_d] = Inr ex_seen_bcd"
  by code_simp

lemma ex_ham_bc: "hamming 65535 0 = 16" "hamming 65535 3 = 14" "hamming 0 0 = 0"
  by code_simp+

lemma ex_strict_scan_b: "check_duplicates ex_lib ex_fs ex_strict [ex_b] = Inr ex_strict_b"
  by code_simp

lemma ex_strict_scan_ba: "check_duplicates ex_lib ex_fs ex_strict [ex_b, ex_a] = Inr ex_strict_ba"
  by code_simp

lemma ex_init_strict:
  "init ex_cfg_strict ex_fs = Inr (ex_strict, ex_fs @ [([''/'', ''data'', ''backup''], Dir)])"
  by code_simp

subsection \<open>The similarity scan\<close>

text \<open>
  C2, as stated, fails in its last part: when no key is within the threshold the code
  assigns \<^verbatim>\<open>phash_map[phash]\<close>, and with a negative threshold the fingerprint of the file
  can be a key already (distance 0 is not within the threshold). In the example the engine
  is built from a configuration with threshold \<open>-1\<close>; \<open>a.jpg\<close> has the fingerprint of
  \<open>b.jpg\<close>, which was scanned before it. No group is created and no file is appended to a
  group: the original of the existing group is replaced.
\<close>

theorem new_group_not_created:
  "init ex_cfg_strict ex_fs = Inr (ex_strict, ex_fs @ [([''/'', ''data'', ''backup''], Dir)]) \<and>
   check_duplicates ex_lib ex_fs ex_strict [ex_b] = Inr ex_strict_b \<and>
   dict_keys (phash_map ex_strict_b) = [0] \<and>
   calculate_phash ex_lib ex_fs ex_a = Some 0 \<and>
   phash_threshold ex_strict_b < int (hamming 0 0) \<and>
   check_duplicates ex_lib ex_fs ex_strict [ex_b, ex_a] = Inr ex_strict_ba \<and>
   phash_map ex_strict_b = [(0, ex_b)] \<and>
   phash_map ex_strict_ba = [(0, ex_a)] \<and>
   similar_duplicates ex_strict_ba = []"
  by code_simp

text \<open>
  C2, amended. For a file with a computed perceptual fingerprint anywhere in the list
  given to \<^verbatim>\<open>check_duplicates\<close>, the scan goes through the keys of the similarity groups
  in insertion order: if \<open>k\<close> is the first key within the threshold (all keys before it
  are further away), the file is appended to the group of \<open>k\<close> and the group keys stay as
  they are. If no key is within the threshold, the file becomes the original of the group
  keyed by its own fingerprint and no list of similar images changes: that is a new
  group, at the end of the order, when the fingerprint is not a key yet, which is always
  so with a non-negative threshold; when the fingerprint is a key already, the existing
  group gets this file as its original and the keys stay as they are.
\<close>

theorem similarity_first_match:
  assumes run: "check_duplicates lib fs c0 (seen @ file_path # rest) = Inr c_end"
    and ph: "calculate_phash lib fs file_path = Some ph"
  shows "\<exists>c c'. check_duplicates lib fs c0 seen = Inr c \<and>
           check_duplicates lib fs c0 (seen @ [file_path]) = Inr c' \<and>
           check_duplicates lib fs c' rest = Inr c_end \<and>
           (\<forall>pre k post.
              dict_keys (phash_map c) = pre @ k # post \<and>
              (\<forall>j \<in> set pre. phash_threshold c < int (hamming ph j)) \<and>
              int (hamming ph k) \<le> phash_threshold c \<longrightarrow>
                similar_duplicates c' = dd_append (similar_duplicates c) k file_path \<and>
                dd_get (similar_duplicates c') k = dd_get (similar_duplicates c) k @ [file_path] \<and>
                phash_map c' = phash_map c) \<and>
           ((\<forall>k \<in> set (dict_keys (phash_map c)). phash_threshold c < int (hamming ph k)) \<longrightarrow>
                phash_map c' = dict_set (phash_map c) ph file_path \<and>
                get_or_unknown (phash_map c') ph = file_path \<and>
                similar_duplicates c' = similar_duplicates c \<and>
                (ph \<notin> set (dict_keys (phash_map c)) \<longrightarrow>
                   dict_keys (phash_map c') = dict_keys (phash_map c) @ [ph]) \<and>
                (ph \<in> set (dict_keys (phash_map c)) \<longrightarrow>
                   dict_keys (phash_map c') = dict_keys (phash_map c)) \<and>
                (0 \<le> phash_threshold c \<longrightarrow> ph \<notin> set (dict_keys (phash_map c))))"
proof -
  from check_duplicates_split [OF run] obtain c c' where
    c: "check_duplicates lib fs c0 seen = Inr c"
    and s: "check_file lib fs c file_path = Inr c'"
    and a: "check_duplicates lib fs c0 (seen @ [file_path]) = Inr c'"
    and e: "check_duplicates lib fs c' rest = Inr c_end"
    by blast
  note step = check_file_phash_step [OF s ph]
  note keys = check_file_phash_keys [OF s ph]
  have "(\<forall>pre k post.
              dict_keys (phash_map c) = pre @ k # post \<and>
              (\<forall>j \<in> set pre. phash_threshold c < int (hamming ph j)) \<and>
              int (hamming ph k) \<le> phash_threshold c \<longrightarrow>
                similar_duplicates c' = dd_append (similar_duplicates c) k file_path \<and>
                dd_get (similar_duplicates c') k = dd_get (similar_duplicates c) k @ [file_path] \<and>
                phash_map c' = phash_map c) \<and>
           ((\<forall>k \<in> set (dict_keys (phash_map c)). phash_threshold c < int (hamming ph k)) \<longrightarrow>
                phash_map c' = dict_set (phash_map c) ph file_path \<and>
                get_or_unknown (phash_map c') ph = file_path \<and>
                similar_duplicates c' = similar_duplicates c \<and>
                (ph \<notin> set (dict_keys (phash_map c)) \<longrightarrow>
                   dict_keys (phash_map c') = dict_keys (phash_map c) @ [ph]) \<and>
                (ph \<in> set (dict_keys (phash_map c)) \<longrightarrow>
                   dict_keys (phash_map c') = dict_keys (phash_map c)) \<and>
                (0 \<le> phash_threshold c \<longrightarrow> ph \<notin> set (dict_keys (phash_map c))))"
    using step keys by blast
  with c a e show ?thesis by blast
qed

theorem similarity_first_match_witness:
  "check_duplicates ex_lib ex_fs ex_checker ([ex_b] @ ex_c # [ex_d]) = Inr ex_seen_bcd \<and>
   calculate_phash ex_lib ex_fs ex_c = Some 3 \<and>
   check_duplicates ex_lib ex_fs ex_checker [ex_b] = Inr ex_seen_b \<and>
   check_duplicates ex_lib ex_fs ex_checker ([ex_b] @ [ex_c]) = Inr ex_seen_bc \<and>
   dict_keys (phash_map ex_seen_b) = [] @ 0 # [] \<and>
   int (hamming 3 0) \<le> phash_threshold ex_seen_b \<and>
   similar_duplicates ex_seen_bc = dd_append (similar_duplicates ex_seen_b) 0 ex_c \<and>
   phash_map ex_seen_bc = phash_map ex_seen_b \<and>
   check_duplicates ex_lib ex_fs ex_checker ([ex_b, ex_c] @ ex_d # []) = Inr ex_seen_bcd \<and>
   calculate_phash ex_lib ex_fs ex_d = Some 65535 \<and>
   dict_keys (phash_map ex_seen_bc) = [0] \<and>
   phash_threshold ex_seen_bc < int (hamming 65535 0) \<and>
   65535 \<notin> set (dict_keys (phash_map ex_seen_bc)) \<and>
   dict_keys (phash_map ex_seen_bcd) = dict_keys (phash_map ex_seen_bc) @ [65535] \<and>
   get_or_unknown (phash_map ex_seen_bcd) 65535 = ex_d \<and>
   check_duplicates ex_lib ex_fs ex_strict ([ex_b] @ ex_a # []) = Inr ex_strict_ba \<and>
   calculate_phash ex_lib ex_fs ex_a = Some 0 \<and>
   dict_keys (phash_map ex_strict_b) = [0] \<and>
   phash_threshold ex_strict_b < int (hamming 0 0) \<and>
   0 \<in> set (dict_keys (phash_map ex_strict_b)) \<and>
   dict_keys (phash_map ex_strict_ba) = dict_keys (phash_map ex_strict_b) \<and>
   get_or_unknown (phash_map ex_strict_ba) 0 = ex_a"
proof -
  have r1: "check_duplicates ex_lib ex_fs ex_checker ([ex_b] @ ex_c # [ex_d]) = Inr ex_seen_bcd"
    using ex_scan_bcd by simp
  have a1: "check_duplicates ex_lib ex_fs ex_checker ([ex_b] @ [ex_c]) = Inr ex_seen_bc"
    using ex_scan_bc by simp
  have k1: "dict_keys (phash_map ex_seen_b) = [] @ 0 # []"
    by (simp add: ex_seen_b_def ex_checker_def dict_keys_def)
  have t1: "phash_threshold ex_seen_b = 10" by (simp add: ex_seen_b_def ex_checker_def)
  have n1: "int (hamming 3 0) \<le> phash_threshold ex_seen_b" by (simp add: t1 ex_ham)
  from similarity_first_match [OF r1 ex_phash_c] obtain c c' where
    c: "check_duplicates ex_lib ex_fs ex_checker [ex_b] = Inr c"
    and c': "check_duplicates ex_lib ex_fs ex_checker ([ex_b] @ [ex_c]) = Inr c'"
    and m: "\<forall>pre k post.
              dict_keys (phash_map c) = pre @ k # post \<and>
              (\<forall>j \<in> set pre. phash_threshold c < int (hamming 3 j)) \<and>
              int (hamming 3 k) \<le> phash_threshold c \<longrightarrow>
                similar_duplicates c' = dd_append (similar_duplicates c) k ex_c \<and>
                dd_get (similar_duplicates c') k = dd_get (similar_duplicates c) k @ [ex_c] \<and>
                phash_map c' = phash_map c"
    by blast
  from c ex_step_b have ce: "c = ex_seen_b" by simp
  from c' a1 have ce': "c' = ex_seen_bc" by simp
  have p1: "dict_keys (phash_map ex_seen_b) = [] @ 0 # [] \<and>
      (\<forall>j \<in> set []. phash_threshold ex_seen_b < int (hamming 3 j)) \<and>
      int (hamming 3 0) \<le> phash_threshold ex_seen_b"
    using k1 n1 by simp
  from m [unfolded ce ce', rule_format, OF p1]
  have g1: "similar_duplicates ex_seen_bc = dd_append (similar_duplicates ex_seen_b) 0 ex_c"
    and g2: "phash_map ex_seen_bc = phash_map ex_seen_b"
    by blast+
  have r2: "check_duplicates ex_lib ex_fs ex_checker ([ex_b, ex_c] @ ex_d # []) = Inr ex_seen_bcd"
    using ex_scan_bcd by simp
  have k2: "dict_keys (phash_map ex_seen_bc) = [0]"
    by (simp add: ex_seen_bc_def ex_seen_b_def ex_checker_def dict_keys_def)
  have t2: "phash_threshold ex_seen_bc = 10"
    by (simp add: ex_seen_bc_def ex_seen_b_def ex_checker_def)
  have f2: "phash_threshold ex_seen_bc < int (hamming 65535 0)" by (simp add: t2 ex_ham)
  have nk2: "65535 \<notin> set (dict_keys (phash_map ex_seen_bc))" by (simp add: k2)
  from similarity_first_match [OF r2 ex_phash_d] obtain d d' where
    d: "check_duplicates ex_lib ex_fs ex_checker [ex_b, ex_c] = Inr d"
    and d': "check_duplicates ex_lib ex_fs ex_checker ([ex_b, ex_c] @ [ex_d]) = Inr d'"
    and n: "(\<forall>k \<in> set (dict_keys (phash_map d)). phash_threshold d < int (hamming 65535 k)) \<longrightarrow>
                phash_map d' = dict_set (phash_map d) 65535 ex_d \<and>
                get_or_unknown (phash_map d') 65535 = ex_d \<and>
                similar_duplicates d' = similar_duplicates d \<and>
                (65535 \<notin> set (dict_keys (phash_map d)) \<longrightarrow>
                   dict_keys (phash_map d') = dict_keys (phash_map d) @ [65535]) \<and>
                (65535 \<in> set (dict_keys (phash_map d)) \<longrightarrow>
                   dict_keys (phash_map d') = dict_keys (phash_map d)) \<and>
                (0 \<le> phash_threshold d \<longrightarrow> 65535 \<notin> set (dict_keys (phash_map d)))"
    by blast
  from d ex_scan_bc have de: "d = ex_seen_bc" by simp
  from d' ex_scan_bcd have de': "d' = ex_seen_bcd" by simp
  have far2: "\<forall>k \<in> set (dict_keys (phash_map ex_seen_bc)).
      phash_threshold ex_seen_bc < int (hamming 65535 k)"
    using f2 by (simp add: k2)
  from n [unfolded de de', THEN mp, OF far2] nk2
  have g3: "dict_keys (phash_map ex_seen_bcd) = dict_keys (phash_map ex_seen_bc) @ [65535]"
    and g4: "get_or_unknown (phash_map ex_seen_bcd) 65535 = ex_d"
    by blast+
  have r3: "check_duplicates ex_lib ex_fs ex_strict ([ex_b] @ ex_a # []) = Inr ex_strict_ba"
    using ex_strict_scan_ba by simp
  have k3: "dict_keys (phash_map ex_strict_b) = [0]"
    by (simp add: ex_strict_b_def ex_strict_def ex_checker_def dict_keys_def)
  have t3: "phash_threshold ex_strict_b = - 1"
    by (simp add: ex_strict_b_def ex_strict_def ex_checker_def)
  have f3: "phash_threshold ex_strict_b < int (hamming 0 0)" by (simp add: t3 ex_ham_bc)
  have ik3: "0 \<in> set (dict_keys (phash_map ex_strict_b))" by (simp add: k3)
  from similarity_first_match [OF r3 ex_phash_a] obtain e e' where
    e: "check_duplicates ex_lib ex_fs ex_strict [ex_b] = Inr e"
    and e': "check_duplicates ex_lib ex_fs ex_strict ([ex_b] @ [ex_a]) = Inr e'"
    and o: "(\<forall>k \<in> set (dict_keys (phash_map e)). phash_threshold e < int (hamming 0 k)) \<longrightarrow>
                phash_map e' = dict_set (phash_map e) 0 ex_a \<and>
                get_or_unknown (phash_map e') 0 = ex_a \<and>
                similar_duplicates e' = similar_duplicates e \<and>
                (0 \<notin> set (dict_keys (phash_map e)) \<longrightarrow>
                   dict_keys (phash_map e') = dict_keys (phash_map e) @ [0]) \<and>
                (0 \<in> set (dict_keys (phash_map e)) \<longrightarrow>
                   dict_keys (phash_map e') = dict_keys (phash_map e)) \<and>
                (0 \<le> phash_threshold e \<longrightarrow> 0 \<notin> set (dict_keys (phash_map e)))"
    by blast
  from e ex_strict_scan_b have ee: "e = ex_strict_b" by simp
  from e' ex_strict_scan_ba have ee': "e' = ex_strict_ba" by simp
  have far3: "\<forall>k \<in> set (dict_keys (phash_map ex_strict_b)).
      phash_threshold ex_strict_b < int (hamming 0 k)"
    using f3 by (simp add: k3)
  from o [unfolded ee ee', THEN mp, OF far3] ik3
  have g5: "dict_keys (phash_map ex_strict_ba) = dict_keys (phash_map ex_strict_b)"
    and g6: "get_or_unknown (phash_map ex_strict_ba) 0 = ex_a"
    by blast+
  from r1 ex_phash_c ex_step_b a1 k1 n1 g1 g2 r2 ex_phash_d k2 f2 nk2 g3 g4
    r3 ex_phash_a k3 f3 ik3 g5 g6
  show ?thesis by (intro conjI)
qed

subsection \<open>Exact duplicates\<close>

text \<open>
  C1, as stated, fails: the perceptual comparison is made for every file, also for one
  whose digest is already in the canonical map. In the example \<open>a.jpg\<close> has the bytes of
  \<open>b.jpg\<close>, which was seen before it, and it is appended to the similarity group of
  \<open>b.jpg\<close>.
\<close>

theorem exact_duplicate_joins_group:
  "calculate_sha256 ex_lib ex_fs ex_a = Inr ''cat1'' \<and>
   dict_has (sha256_map ex_seen_b) ''cat1'' \<and>
   check_file ex_lib ex_fs ex_seen_b ex_a = Inr ex_seen_ba \<and>
   similar_duplicates ex_seen_b = [] \<and>
   similar_duplicates ex_seen_ba = [(0, [ex_a])]"
  by code_simp

text \<open>
  C1, amended. For a file whose digest is already in the canonical map,
  \<^verbatim>\<open>check_duplicates\<close> appends the path to that digest's duplicate list and leaves the
  canonical map as it is. The perceptual comparison is still made for that file: without
  a fingerprint the similarity state stays as it is; with a fingerprint the file is
  appended to the first similarity group within the threshold, when there is one. There
  is one whenever the state comes from a scan that started with an empty canonical map
  and a non-negative threshold, and no two different contents among the scanned files and
  this file have the same digest: in such a scan an exact duplicate joins an existing
  similarity group and never becomes the key of a new one.
\<close>

theorem exact_duplicate_still_compared:
  assumes sha: "calculate_sha256 lib fs file_path = Inr sha"
    and dup: "dict_has (sha256_map c) sha"
  shows "\<exists>c'. check_duplicates lib fs c [file_path] = Inr c' \<and>
           exact_duplicates c' = dd_append (exact_duplicates c) sha file_path \<and>
           dd_get (exact_duplicates c') sha = dd_get (exact_duplicates c) sha @ [file_path] \<and>
           sha256_map c' = sha256_map c \<and>
           (calculate_phash lib fs file_path = None \<longrightarrow>
              similar_duplicates c' = similar_duplicates c \<and> phash_map c' = phash_map c) \<and>
           (\<forall>ph. calculate_phash lib fs file_path = Some ph \<longrightarrow>
              (\<forall>pre k post.
                 dict_keys (phash_map c) = pre @ k # post \<and>
                 (\<forall>j \<in> set pre. phash_threshold c < int (hamming ph j)) \<and>
                 int (hamming ph k) \<le> phash_threshold c \<longrightarrow>
                   similar_duplicates c' = dd_append (similar_duplicates c) k file_path \<and>
                   phash_map c' = phash_map c) \<and>
              (\<forall>c0 image_files.
                 sha256_map c0 = [] \<and> 0 \<le> phash_threshold c0 \<and>
                 inj_on (sha256_hexdigest lib)
                   {b. \<exists>p \<in> insert file_path (set image_files). read_file fs p = Some b} \<and>
                 check_duplicates lib fs c0 image_files = Inr c \<longrightarrow>
                   check_duplicates lib fs c0 (image_files @ [file_path]) = Inr c' \<and>
                   (\<exists>pre k post.
                      dict_keys (phash_map c) = pre @ k # post \<and>
                      (\<forall>j \<in> set pre. phash_threshold c < int (hamming ph j)) \<and>
                      int (hamming ph k) \<le> phash_threshold c \<and>
                      similar_duplicates c' = dd_append (similar_duplicates c) k file_path \<and>
                      phash_map c' = phash_map c)))"
proof -
  from sha obtain b where b: "read_file fs file_path = Some b"
    and shab: "sha = sha256_hexdigest lib b"
    by (cases "read_file fs file_path") (auto simp: calculate_sha256_eq)
  let ?c1 = "record_sha256 c sha file_path"
  let ?c' = "record_phash ?c1 (imagehash_phash lib b) file_path"
  have step: "check_file lib fs c file_path = Inr ?c'"
    using b shab by (simp add: check_file_unfold)
  then have run1: "check_duplicates lib fs c [file_path] = Inr ?c'"
    by (simp add: check_duplicates_single)
  have c1: "?c1 = c\<lparr>exact_duplicates := dd_append (exact_duplicates c) sha file_path\<rparr>"
    using dup by (rule record_sha256_duplicate)
  have phb: "calculate_phash lib fs file_path = imagehash_phash lib b"
    using b by (simp add: calculate_phash_def)
  have exact: "exact_duplicates ?c' = dd_append (exact_duplicates c) sha file_path"
    and shamap: "sha256_map ?c' = sha256_map c"
    by (simp_all add: c1)
  have nofp: "similar_duplicates ?c' = similar_duplicates c \<and> phash_map ?c' = phash_map c"
    if "calculate_phash lib fs file_path = None"
    using that by (simp add: phb record_phash_def c1)
  have matched: "similar_duplicates ?c' = dd_append (similar_duplicates c) k file_path \<and>
                 phash_map ?c' = phash_map c"
    if "calculate_phash lib fs file_path = Some ph"
      and "dict_keys (phash_map c) = pre @ k # post"
      and "\<forall>j \<in> set pre. phash_threshold c < int (hamming ph j)"
      and "int (hamming ph k) \<le> phash_threshold c" for ph pre k post
    using check_file_phash_step [OF step that(1)] that(2,3,4) by blast
  have scanned: "check_duplicates lib fs c0 (image_files @ [file_path]) = Inr ?c' \<and>
       (\<exists>pre k post.
          dict_keys (phash_map c) = pre @ k # post \<and>
          (\<forall>j \<in> set pre. phash_threshold c < int (hamming ph j)) \<and>
          int (hamming ph k) \<le> phash_threshold c \<and>
          similar_duplicates ?c' = dd_append (similar_duplicates c) k file_path \<and>
          phash_map ?c' = phash_map c)"
    if ph: "calculate_phash lib fs file_path = Some ph"
      and fresh: "sha256_map c0 = []" and nonneg: "0 \<le> phash_threshold c0"
      and inj: "inj_on (sha256_hexdigest lib)
                   {b. \<exists>p \<in> insert file_path (set image_files). read_file fs p = Some b}"
      and scan: "check_duplicates lib fs c0 image_files = Inr c" for ph c0 image_files
  proof -
    have thr: "phash_threshold c = phash_threshold c0"
      using scan by (rule phash_threshold_check_duplicates)
    have inv: "\<forall>sha \<in> set (dict_keys (sha256_map c)). \<exists>b.
        (\<exists>q \<in> {} \<union> set image_files. read_file fs q = Some b) \<and> sha256_hexdigest lib b = sha \<and>
        (\<forall>ph. imagehash_phash lib b = Some ph \<longrightarrow>
           (\<exists>k \<in> set (dict_keys (phash_map c)). int (hamming ph k) \<le> phash_threshold c))"
      using scan nonneg by (rule check_duplicates_covers) (simp add: fresh dict_keys_def)
    from dup have "sha \<in> set (dict_keys (sha256_map c))" by (simp add: dict_has_keys)
    with inv obtain b0 q where q: "q \<in> set image_files" "read_file fs q = Some b0"
      and b0: "sha256_hexdigest lib b0 = sha"
      and cov: "\<forall>ph. imagehash_phash lib b0 = Some ph \<longrightarrow>
           (\<exists>k \<in> set (dict_keys (phash_map c)). int (hamming ph k) \<le> phash_threshold c)"
      by auto
    have "b0 \<in> {b. \<exists>p \<in> insert file_path (set image_files). read_file fs p = Some b}"
      using q by blast
    moreover have "b \<in> {b. \<exists>p \<in> insert file_path (set image_files). read_file fs p = Some b}"
      using b by blast
    ultimately have "b0 = b" using inj b0 shab by (auto dest: inj_onD)
    with cov ph phb have "\<exists>k \<in> set (dict_keys (phash_map c)). int (hamming ph k) \<le> phash_threshold c"
      by simp
    then obtain pre k post where keys: "dict_keys (phash_map c) = pre @ k # post"
      and far: "\<forall>j \<in> set pre. phash_threshold c < int (hamming ph j)"
      and near: "int (hamming ph k) \<le> phash_threshold c"
      by (auto simp: find_similar_exists)
    from matched [OF ph keys far near] keys far near
    have "\<exists>pre k post.
          dict_keys (phash_map c) = pre @ k # post \<and>
          (\<forall>j \<in> set pre. phash_threshold c < int (hamming ph j)) \<and>
          int (hamming ph k) \<le> phash_threshold c \<and>
          similar_duplicates ?c' = dd_append (similar_duplicates c) k file_path \<and>
          phash_map ?c' = phash_map c"
      by blast
    moreover have "check_duplicates lib fs c0 (image_files @ [file_path]) = Inr ?c'"
      using scan step by (simp add: check_duplicates_append)
    ultimately show ?thesis by blast
  qed
  have dg: "dd_get (exact_duplicates ?c') sha = dd_get (exact_duplicates c) sha @ [file_path]"
    by (simp add: c1 dd_get_dd_append)
  have E: "calculate_phash lib fs file_path = None \<longrightarrow>
              similar_duplicates ?c' = similar_duplicates c \<and> phash_map ?c' = phash_map c"
    using nofp by (rule impI)
  have F: "\<forall>ph. calculate_phash lib fs file_path = Some ph \<longrightarrow>
              (\<forall>pre k post.
                 dict_keys (phash_map c) = pre @ k # post \<and>
                 (\<forall>j \<in> set pre. phash_threshold c < int (hamming ph j)) \<and>
                 int (hamming ph k) \<le> phash_threshold c \<longrightarrow>
                   similar_duplicates ?c' = dd_append (similar_duplicates c) k file_path \<and>
                   phash_map ?c' = phash_map c) \<and>
              (\<forall>c0 image_files.
                 sha256_map c0 = [] \<and> 0 \<le> phash_threshold c0 \<and>
                 inj_on (sha256_hexdigest lib)
                   {b. \<exists>p \<in> insert file_path (set image_files). read_file fs p = Some b} \<and>
                 check_duplicates lib fs c0 image_files = Inr c \<longrightarrow>
                   check_duplicates lib fs c0 (image_files @ [file_path]) = Inr ?c' \<and>
                   (\<exists>pre k post.
                      dict_keys (phash_map c) = pre @ k # post \<and>
                      (\<forall>j \<in> set pre. phash_threshold c < int (hamming ph j)) \<and>
                      int (hamming ph k) \<le> phash_threshold c \<and>
                      similar_duplicates ?c' = dd_append (similar_duplicates c) k file_path \<and>
                      phash_map ?c' = phash_map c))"
  proof (rule allI, rule impI)
    fix ph assume ph: "calculate_phash lib fs file_path = Some ph"
    have X: "\<forall>pre k post.
                 dict_keys (phash_map c) = pre @ k # post \<and>
                 (\<forall>j \<in> set pre. phash_threshold c < int (hamming ph j)) \<and>
                 int (hamming ph k) \<le> phash_threshold c \<longrightarrow>
                   similar_duplicates ?c' = dd_append (similar_duplicates c) k file_path \<and>
                   phash_map ?c' = phash_map c"
    proof (intro allI impI)
      fix pre k post
      assume h: "dict_keys (phash_map c) = pre @ k # post \<and>
                 (\<forall>j \<in> set pre. phash_threshold c < int (hamming ph j)) \<and>
                 int (hamming ph k) \<le> phash_threshold c"
      from h have h1: "dict_keys (phash_map c) = pre @ k # post" by (rule conjunct1)
      from h have h2: "\<forall>j \<in> set pre. phash_threshold c < int (hamming ph j)"
        by (rule conjunct2 [THEN conjunct1])
      from h have h3: "int (hamming ph k) \<le> phash_threshold c"
        by (rule conjunct2 [THEN conjunct2])
      show "similar_duplicates ?c' = dd_append (similar_duplicates c) k file_path \<and>
                   phash_map ?c' = phash_map c"
        by (rule matched [OF ph h1 h2 h3])
    qed
    have Y: "\<forall>c0 image_files.
                 sha256_map c0 = [] \<and> 0 \<le> phash_threshold c0 \<and>
                 inj_on (sha256_hexdigest lib)
                   {b. \<exists>p \<in> insert file_path (set image_files). read_file fs p = Some b} \<and>
                 check_duplicates lib fs c0 image_files = Inr c \<longrightarrow>
                   check_duplicates lib fs c0 (image_files @ [file_path]) = Inr ?c' \<and>
                   (\<exists>pre k post.
                      dict_keys (phash_map c) = pre @ k # post \<and>
                      (\<forall>j \<in> set pre. phash_threshold c < int (hamming ph j)) \<and>
                      int (hamming ph k) \<le> phash_threshold c \<and>
                      similar_duplicates ?c' = dd_append (similar_duplicates c) k file_path \<and>
                      phash_map ?c' = phash_map c)"
    proof (intro allI impI)
      fix c0 image_files
      assume h: "sha256_map c0 = [] \<and> 0 \<le> phash_threshold c0 \<and>
                 inj_on (sha256_hexdigest lib)
                   {b. \<exists>p \<in> insert file_path (set image_files). read_file fs p = Some b} \<and>
                 check_duplicates lib fs c0 image_files = Inr c"
      from h have h1: "sha256_map c0 = []" by (rule conjunct1)
      from h have h2: "0 \<le> phash_threshold c0" by (rule conjunct2 [THEN conjunct1])
      from h have h3: "inj_on (sha256_hexdigest lib)
                   {b. \<exists>p \<in> insert file_path (set image_files). read_file fs p = Some b}"
        by (rule conjunct2 [THEN conjunct2, THEN conjunct1])
      from h have h4: "check_duplicates lib fs c0 image_files = Inr c"
        by (rule conjunct2 [THEN conjunct2, THEN conjunct2])
      show "check_duplicates lib fs c0 (image_files @ [file_path]) = Inr ?c' \<and>
                   (\<exists>pre k post.
                      dict_keys (phash_map c) = pre @ k # post \<and>
                      (\<forall>j \<in> set pre. phash_threshold c < int (hamming ph j)) \<and>
                      int (hamming ph k) \<le> phash_threshold c \<and>
                      similar_duplicates ?c' = dd_append (similar_duplicates c) k file_path \<and>
                      phash_map ?c' = phash_map c)"
        by (rule scanned [OF ph h1 h2 h3 h4])
    qed
    from X Y show "(\<forall>pre k post.
                 dict_keys (phash_map c) = pre @ k # post \<and>
                 (\<forall>j \<in> set pre. phash_threshold c < int (hamming ph j)) \<and>
                 int (hamming ph k) \<le> phash_threshold c \<longrightarrow>
                   similar_duplicates ?c' = dd_append (similar_duplicates c) k file_path \<and>
                   phash_map ?c' = phash_map c) \<and>
              (\<forall>c0 image_files.
                 sha256_map c0 = [] \<and> 0 \<le> phash_threshold c0 \<and>
                 inj_on (sha256_hexdigest lib)
                   {b. \<exists>p \<in> insert file_path (set image_files). read_file fs p = Some b} \<and>
                 check_duplicates lib fs c0 image_files = Inr c \<longrightarrow>
                   check_duplicates lib fs c0 (image_files @ [file_path]) = Inr ?c' \<and>
                   (\<exists>pre k post.
                      dict_keys (phash_map c) = pre @ k # post \<and>
                      (\<forall>j \<in> set pre. phash_threshold c < int (hamming ph j)) \<and>
                      int (hamming ph k) \<le> phash_threshold c \<and>
                      similar_duplicates ?c' = dd_append (similar_duplicates c) k file_path \<and>
                      phash_map ?c' = phash_map c))"
      by (rule conjI)
  qed
  from run1 exact dg shamap E F show ?thesis
    by (intro exI [of _ ?c'] conjI)
qed

theorem exact_duplicate_still_compared_witness:
  "calculate_sha256 ex_lib ex_fs ex_a = Inr ''cat1'' \<and>
   dict_has (sha256_map ex_seen_b) ''cat1'' \<and>
   check_duplicates ex_lib ex_fs ex_seen_b [ex_a] = Inr ex_seen_ba \<and>
   exact_duplicates ex_seen_ba = dd_append (exact_duplicates ex_seen_b) ''cat1'' ex_a \<and>
   sha256_map ex_seen_ba = sha256_map ex_seen_b \<and>
   calculate_phash ex_lib ex_fs ex_a = Some 0 \<and>
   sha256_map ex_checker = [] \<and>
   0 \<le> phash_threshold ex_checker \<and>
   inj_on (sha256_hexdigest ex_lib)
     {b. \<exists>p \<in> insert ex_a (set [ex_b]). read_file ex_fs p = Some b} \<and>
   check_duplicates ex_lib ex_fs ex_checker [ex_b] = Inr ex_seen_b \<and>
   check_duplicates ex_lib ex_fs ex_checker ([ex_b] @ [ex_a]) = Inr ex_seen_ba \<and>
   dict_keys (phash_map ex_seen_b) = [] @ 0 # [] \<and>
   int (hamming 0 0) \<le> phash_threshold ex_seen_b \<and>
   similar_duplicates ex_seen_ba = dd_append (similar_duplicates ex_seen_b) 0 ex_a \<and>
   phash_map ex_seen_ba = phash_map ex_seen_b"
proof -
  have fresh: "sha256_map ex_checker = []" by (simp add: ex_checker_def)
  have nonneg: "0 \<le> phash_threshold ex_checker" by (simp add: ex_checker_def)
  have dup: "dict_has (sha256_map ex_seen_b) ''cat1''"
    by (simp add: ex_seen_b_def ex_checker_def dict_has_def)
  have keys: "dict_keys (phash_map ex_seen_b) = [] @ 0 # []"
    by (simp add: ex_seen_b_def ex_checker_def dict_keys_def)
  have thr: "phash_threshold ex_seen_b = 10" by (simp add: ex_seen_b_def ex_checker_def)
  have near: "int (hamming 0 0) \<le> phash_threshold ex_seen_b" by (simp add: thr hamming_self)
  have one: "check_duplicates ex_lib ex_fs ex_seen_b [ex_a] = Inr ex_seen_ba"
    using ex_step_a by (simp add: check_duplicates_single)
  from exact_duplicate_still_compared [OF ex_sha_a dup]
  obtain c' where step: "check_duplicates ex_lib ex_fs ex_seen_b [ex_a] = Inr c'"
    and exact: "exact_duplicates c' = dd_append (exact_duplicates ex_seen_b) ''cat1'' ex_a"
    and shamap: "sha256_map c' = sha256_map ex_seen_b"
    and F: "\<forall>ph. calculate_phash ex_lib ex_fs ex_a = Some ph \<longrightarrow>
              (\<forall>pre k post.
                 dict_keys (phash_map ex_seen_b) = pre @ k # post \<and>
                 (\<forall>j \<in> set pre. phash_threshold ex_seen_b < int (hamming ph j)) \<and>
                 int (hamming ph k) \<le> phash_threshold ex_seen_b \<longrightarrow>
                   similar_duplicates c' = dd_append (similar_duplicates ex_seen_b) k ex_a \<and>
                   phash_map c' = phash_map ex_seen_b) \<and>
              (\<forall>c0 image_files.
                 sha256_map c0 = [] \<and> 0 \<le> phash_threshold c0 \<and>
                 inj_on (sha256_hexdigest ex_lib)
                   {b. \<exists>p \<in> insert ex_a (set image_files). read_file ex_fs p = Some b} \<and>
                 check_duplicates ex_lib ex_fs c0 image_files = Inr ex_seen_b \<longrightarrow>
                   check_duplicates ex_lib ex_fs c0 (image_files @ [ex_a]) = Inr c' \<and>
                   (\<exists>pre k post.
                      dict_keys (phash_map ex_seen_b) = pre @ k # post \<and>
                      (\<forall>j \<in> set pre. phash_threshold ex_seen_b < int (hamming ph j)) \<and>
                      int (hamming ph k) \<le> phash_threshold ex_seen_b \<and>
                      similar_duplicates c' = dd_append (similar_duplicates ex_seen_b) k ex_a \<and>
                      phash_map c' = phash_map ex_seen_b))"
    by blast
  from step one have c': "c' = ex_seen_ba" by simp
  note G = F [unfolded c', THEN spec, THEN mp, OF ex_phash_a]
  have p1: "dict_keys (phash_map ex_seen_b) = [] @ 0 # [] \<and>
      (\<forall>j \<in> set []. phash_threshold ex_seen_b < int (hamming 0 j)) \<and>
      int (hamming 0 0) \<le> phash_threshold ex_seen_b"
    using keys near by simp
  have m: "similar_duplicates ex_seen_ba = dd_append (similar_duplicates ex_seen_b) 0 ex_a \<and>
           phash_map ex_seen_ba = phash_map ex_seen_b"
    by (rule G [THEN conjunct1, rule_format, OF p1])
  have p2: "sha256_map ex_checker = [] \<and> 0 \<le> phash_threshold ex_checker \<and>
            inj_on (sha256_hexdigest ex_lib)
              {b. \<exists>p \<in> insert ex_a (set [ex_b]). read_file ex_fs p = Some b} \<and>
            check_duplicates ex_lib ex_fs ex_checker [ex_b] = Inr ex_seen_b"
    using fresh nonneg ex_inj_on ex_step_b by (intro conjI)
  have two: "check_duplicates ex_lib ex_fs ex_checker ([ex_b] @ [ex_a]) = Inr ex_seen_ba"
    by (rule G [THEN conjunct2, rule_format, OF p2, THEN conjunct1])
  from m have m1: "similar_duplicates ex_seen_ba = dd_append (similar_duplicates ex_seen_b) 0 ex_a"
    by (rule conjunct1)
  from m have m2: "phash_map ex_seen_ba = phash_map ex_seen_b" by (rule conjunct2)
  from ex_sha_a dup one exact [unfolded c'] shamap [unfolded c'] ex_phash_a fresh nonneg
    ex_inj_on ex_step_b two keys near m1 m2
  show ?thesis by (intro conjI)
qed

subsection \<open>The default threshold\<close>

text \<open>
  C10. An engine constructed from a configuration without the key
  \<open>perceptual_hash_threshold\<close> has the threshold 10, the threshold is still 10 after any
  number of files of the scan, and the comparison made for each file with a fingerprint
  is against 10: the file joins the first group whose key is at distance at most 10, and
  becomes a key when every key is further than 10.
\<close>

theorem default_threshold:
  assumes "cfg_perceptual_hash_threshold cfg = None"
    and "init cfg fs0 = Inr (c, fs1)"
  shows "phash_threshold c = 10 \<and>
    (\<forall>lib fs seen file_path ci ci' ph.
       check_duplicates lib fs c seen = Inr ci \<and>
       check_file lib fs ci file_path = Inr ci' \<and>
       calculate_phash lib fs file_path = Some ph \<longrightarrow>
         phash_threshold ci = 10 \<and>
         (\<forall>pre k post.
            dict_keys (phash_map ci) = pre @ k # post \<and>
            (\<forall>j \<in> set pre. 10 < int (hamming ph j)) \<and> int (hamming ph k) \<le> 10 \<longrightarrow>
              similar_duplicates ci' = dd_append (similar_duplicates ci) k file_path \<and>
              phash_map ci' = phash_map ci) \<and>
         ((\<forall>k \<in> set (dict_keys (phash_map ci)). 10 < int (hamming ph k)) \<longrightarrow>
              phash_map ci' = dict_set (phash_map ci) ph file_path \<and>
              similar_duplicates ci' = similar_duplicates ci))"
proof -
  have ten: "phash_threshold c = 10"
    using assms by (auto simp: init_def split: option.splits sum.splits)
  have "phash_threshold ci = 10 \<and>
         (\<forall>pre k post.
            dict_keys (phash_map ci) = pre @ k # post \<and>
            (\<forall>j \<in> set pre. 10 < int (hamming ph j)) \<and> int (hamming ph k) \<le> 10 \<longrightarrow>
              similar_duplicates ci' = dd_append (similar_duplicates ci) k file_path \<and>
              phash_map ci' = phash_map ci) \<and>
         ((\<forall>k \<in> set (dict_keys (phash_map ci)). 10 < int (hamming ph k)) \<longrightarrow>
              phash_map ci' = dict_set (phash_map ci) ph file_path \<and>
              similar_duplicates ci' = similar_duplicates ci)"
    if scan: "check_duplicates lib fs c seen = Inr ci"
      and step: "check_file lib fs ci file_path = Inr ci'"
      and ph: "calculate_phash lib fs file_path = Some ph"
    for lib fs seen file_path ci ci' ph
  proof -
    have thr: "phash_threshold ci = 10"
      using phash_threshold_check_duplicates [OF scan] ten by simp
    from check_file_phash_step [OF step ph] thr show ?thesis by simp
  qed
  with ten show ?thesis by blast
qed

theorem default_threshold_witness:
  "cfg_perceptual_hash_threshold ex_cfg = None \<and>
   init ex_cfg ex_fs = Inr (ex_checker, ex_fs @ [([''/'', ''data'', ''backup''], Dir)]) \<and>
   phash_threshold ex_checker = 10 \<and>
   check_duplicates ex_lib ex_fs ex_checker [ex_b] = Inr ex_seen_b \<and>
   check_file ex_lib ex_fs ex_seen_b ex_c = Inr ex_seen_bc \<and>
   calculate_phash ex_lib ex_fs ex_c = Some 3 \<and>
   phash_threshold ex_seen_b = 10 \<and>
   dict_keys (phash_map ex_seen_b) = [] @ 0 # [] \<and>
   int (hamming 3 0) \<le> 10 \<and>
   similar_duplicates ex_seen_bc = dd_append (similar_duplicates ex_seen_b) 0 ex_c \<and>
   phash_map ex_seen_bc = phash_map ex_seen_b"
proof -
  have none: "cfg_perceptual_hash_threshold ex_cfg = None" by (simp add: ex_cfg_def)
  note t = default_threshold [OF none ex_init]
  have ten: "phash_threshold ex_checker = 10" by (rule t [THEN conjunct1])
  have hyp: "check_duplicates ex_lib ex_fs ex_checker [ex_b] = Inr ex_seen_b \<and>
       check_file ex_lib ex_fs ex_seen_b ex_c = Inr ex_seen_bc \<and>
       calculate_phash ex_lib ex_fs ex_c = Some 3"
    using ex_step_b ex_step_c ex_phash_c by (intro conjI)
  note u = t [THEN conjunct2, rule_format, OF hyp]
  have ten': "phash_threshold ex_seen_b = 10" by (rule u [THEN conjunct1])
  have keys: "dict_keys (phash_map ex_seen_b) = [] @ 0 # []"
    by (simp add: ex_seen_b_def ex_checker_def dict_keys_def)
  have near: "int (hamming 3 0) \<le> 10" by (simp add: ex_ham)
  have prem: "dict_keys (phash_map ex_seen_b) = [] @ 0 # [] \<and>
      (\<forall>j \<in> set []. 10 < int (hamming 3 j)) \<and> int (hamming 3 0) \<le> 10"
    using keys near by simp
  have m: "similar_duplicates ex_seen_bc = dd_append (similar_duplicates ex_seen_b) 0 ex_c \<and>
      phash_map ex_seen_bc = phash_map ex_seen_b"
    by (rule u [THEN conjunct2, THEN conjunct1, rule_format, OF prem])
  from none ex_init ten ex_step_b ex_step_c ex_phash_c ten' keys near m show ?thesis
    by (elim conjE, intro conjI) assumption+
qed


subsection \<open>Image discovery\<close>

text \<open>
  The discovered list is, for each existing source folder in the configured order, and
  within it for each extension in the configured order, what \<^verbatim>\<open>rglob\<close> lists, in its
  order. A missing folder contributes nothing; nothing is filtered and nothing is sorted.
\<close>

lemma glob_extensions_eq:
  "glob_extensions fs folder exts acc = acc @ concat (map (rglob fs folder) exts)"
  by (induction exts arbitrary: acc) simp_all

lemma find_in_folders_eq:
  "find_in_folders fs exts folders acc =
     acc @ concat (map (\<lambda>folder. concat (map (rglob fs folder) exts))
                     (filter (path_exists fs) folders))"
  by (induction folders arbitrary: acc) (simp_all add: glob_extensions_eq)

lemma find_all_images_eq:
  "find_all_images c fs =
     concat (map (\<lambda>folder. concat (map (rglob fs folder) (extensions c)))
               (filter (path_exists fs) (source_folders c)))"
  by (simp add: find_all_images_def find_in_folders_eq)

text \<open>
  C9 against the code: the file \<open>._a.jpg\<close> lies under the source folder and its name ends
  with a configured extension, so \<open>find_all_images\<close> returns it, although its name begins
  with the resource-fork marker.
\<close>

theorem resource_fork_file_discovered:
  "find_all_images ex_checker ex_fs_mac = [ex_a, ex_dot] \<and>
   startswith (path_name ex_dot) ''._''"
  by code_simp

lemma ex_same_files: "set ex_fs = set ex_fs_sorted"
  by (auto simp: ex_fs_def ex_fs_sorted_def ex_a_def ex_b_def ex_c_def ex_d_def)

lemma ex_found: "find_all_images ex_checker ex_fs = [ex_b, ex_a, ex_c, ex_d]"
  by code_simp

lemma ex_found_sorted: "find_all_images ex_checker ex_fs_sorted = [ex_a, ex_b, ex_c, ex_d]"
  by code_simp

lemma ex_run_eq: "run_check ex_lib ex_fs ex_checker = Inr ex_run"
  by code_simp

lemma ex_run_sorted_eq: "run_check ex_lib ex_fs_sorted ex_checker = Inr ex_run_sorted"
  by code_simp

text \<open>
  C6 against the code: \<open>run\<close> hands the list to \<open>check_duplicates\<close> as \<open>find_all_images\<close>
  returns it. Two file systems with the same entries, listed in different orders, give
  different groups: the canonical file of the digest \<open>cat1\<close> is \<open>b.jpg\<close> in one scan and
  \<open>a.jpg\<close> in the other, and the other file is the one to be moved away.
\<close>

theorem traversal_order_decides_groups:
  "set ex_fs = set ex_fs_sorted \<and>
   find_all_images ex_checker ex_fs = [ex_b, ex_a, ex_c, ex_d] \<and>
   find_all_images ex_checker ex_fs_sorted = [ex_a, ex_b, ex_c, ex_d] \<and>
   run_check ex_lib ex_fs ex_checker = Inr ex_run \<and>
   run_check ex_lib ex_fs_sorted ex_checker = Inr ex_run_sorted \<and>
   exact_duplicates ex_run = [(''cat1'', [ex_a])] \<and>
   exact_duplicates ex_run_sorted = [(''cat1'', [ex_b])] \<and>
   ex_run \<noteq> ex_run_sorted"
proof -
  have d1: "exact_duplicates ex_run = [(''cat1'', [ex_a])]" by (simp add: ex_run_def)
  have d2: "exact_duplicates ex_run_sorted = [(''cat1'', [ex_b])]" by (simp add: ex_run_sorted_def)
  have "ex_a \<noteq> ex_b" by (simp add: ex_a_def ex_b_def)
  with d1 d2 have ne: "ex_run \<noteq> ex_run_sorted" by auto
  from ex_same_files ex_found ex_found_sorted ex_run_eq ex_run_sorted_eq d1 d2 ne
  show ?thesis by (intro conjI)
qed

subsection \<open>Read failures\<close>

lemma check_file_unreadable:
  "read_file fs p = None \<Longrightarrow> check_file lib fs c p = Inl IOError"
  by (simp add: check_file_def calculate_sha256_eq)

lemma check_file_error: "check_file lib fs c p = Inl e \<Longrightarrow> e = IOError"
  by (cases "read_file fs p") (auto simp: check_file_def calculate_sha256_eq)

lemma check_duplicates_unreadable:
  "p \<in> set image_files \<Longrightarrow> read_file fs p = None \<Longrightarrow>
     check_duplicates lib fs c image_files = Inl IOError"
proof (induction image_files arbitrary: c)
  case Nil
  then show ?case by simp
next
  case (Cons q qs)
  show ?case
  proof (cases "check_file lib fs c q")
    case (Inl e)
    then show ?thesis by (simp add: check_file_error [OF Inl])
  next
    case (Inr c1)
    with Cons.prems have "p \<noteq> q" by (auto simp: check_file_unreadable)
    with Cons.prems have "p \<in> set qs" by simp
    with Cons.IH Cons.prems(2) Inr show ?thesis by simp
  qed
qed

text \<open>
  C4 against the code: \<open>locked.jpg\<close> cannot be read. The scan of the folder ends with the
  \<open>IOError\<close> of \<open>calculate_sha256\<close>, and \<open>c.jpg\<close>, which comes after it and would have
  been classified, is never looked at.
\<close>

theorem unreadable_file_aborts_scan:
  "find_all_images ex_checker ex_fs_locked = [ex_b, ex_locked, ex_c] \<and>
   calculate_sha256 ex_lib ex_fs_locked ex_locked = Inl IOError \<and>
   check_file ex_lib ex_fs_locked ex_seen_b ex_c = Inr ex_seen_bc \<and>
   run_check ex_lib ex_fs_locked ex_checker = Inl IOError"
  by code_simp

subsection \<open>The report\<close>

text \<open>
  C7. In the generated report, \<open>exact_duplicates_count\<close> is the sum of the lengths of the
  duplicate lists of the engine, the exact groups of the report carry exactly these
  lists, digest by digest, so the count is also the sum of the lengths of the
  \<open>duplicates\<close> lists of all exact groups of the report; and \<open>total_images_scanned\<close> is the
  number of canonical entries (the keys of the digest map) plus \<open>exact_duplicates_count\<close>.
\<close>

theorem report_counts:
  "exact_duplicates_count (fst (generate_report c now)) =
     sum_list (map (\<lambda>(sha, files). length files) (exact_duplicates c))
   \<and> map (\<lambda>(sha, g). (sha, duplicates g))
        (report_exact_duplicates (fst (generate_report c now))) = exact_duplicates c
   \<and> exact_duplicates_count (fst (generate_report c now)) =
       sum_list (map (\<lambda>(sha, g). length (duplicates g))
         (report_exact_duplicates (fst (generate_report c now))))
   \<and> total_images_scanned (fst (generate_report c now)) =
       length (dict_keys (sha256_map c)) + exact_duplicates_count (fst (generate_report c now))"
proof -
  have 1: "exact_duplicates_count (fst (generate_report c now)) =
     sum_list (map (\<lambda>(sha, files). length files) (exact_duplicates c))"
    by (simp add: generate_report_def sum_len_def case_prod_unfold)
  have 2: "map (\<lambda>(sha, g). (sha, duplicates g))
        (report_exact_duplicates (fst (generate_report c now))) = exact_duplicates c"
    by (simp add: generate_report_def comp_def case_prod_unfold)
  have 3: "exact_duplicates_count (fst (generate_report c now)) =
       sum_list (map (\<lambda>(sha, g). length (duplicates g))
         (report_exact_duplicates (fst (generate_report c now))))"
    by (simp add: generate_report_def sum_len_def comp_def case_prod_unfold)
  have 4: "total_images_scanned (fst (generate_report c now)) =
       length (dict_keys (sha256_map c)) + exact_duplicates_count (fst (generate_report c now))"
    by (simp add: generate_report_def dict_keys_def)
  from 1 2 3 4 show ?thesis by (intro conjI)
qed

theorem report_counts_witness:
  "run_check ex_lib ex_fs ex_checker = Inr ex_run \<and>
   exact_duplicates ex_run = [(''cat1'', [ex_a])] \<and>
   length (dict_keys (sha256_map ex_run)) = 3 \<and>
   exact_duplicates_count (fst (generate_report ex_run ''now'')) = 1 \<and>
   total_images_scanned (fst (generate_report ex_run ''now'')) = 4"
proof -
  have d: "exact_duplicates ex_run = [(''cat1'', [ex_a])]" by (simp add: ex_run_def)
  have k: "length (dict_keys (sha256_map ex_run)) = 3" by (simp add: ex_run_def dict_keys_def)
  note t = report_counts [of ex_run "''now''"]
  from t have c: "exact_duplicates_count (fst (generate_report ex_run ''now'')) = 1"
    by (simp add: d)
  from t have "total_images_scanned (fst (generate_report ex_run ''now'')) =
      length (dict_keys (sha256_map ex_run)) + exact_duplicates_count (fst (generate_report ex_run ''now''))"
    by (elim conjE)
  with k c have n: "total_images_scanned (fst (generate_report ex_run ''now'')) = 4" by simp
  from ex_run_eq d k c n show ?thesis by (intro conjI)
qed

subsection \<open>Canonical paths and the lists of the report\<close>





















subsection \<open>A second run of the mover\<close>














end
